theory Spec2Isabelle
  imports Main
begin

section \<open>The AI move planner of the Game Creator server\<close>

text \<open>
  The development embeds the two functions of \<^verbatim>\<open>src/Game Creator/app.py\<close> that
  make up the planner: \<^verbatim>\<open>find_path\<close> (breadth-first search on a tile grid) and the
  route handler \<^verbatim>\<open>get_ai_move\<close> (grid construction from the posted game state, the
  call of the search, and the JSON answer). Python integers are unbounded, so they are
  \<^typ>\<open>int\<close>; a cell is the tuple \<^verbatim>\<open>(row, col)\<close>; the grid is a list of rows.
  Every exception the code can raise on well-typed input is a value of \<open>error\<close>.
\<close>

subsection \<open>Data\<close>

type_synonym cell = "int \<times> int"

type_synonym grid = "int list list"

datatype error = IndexError | ZeroDivisionError

text \<open>The outcome of one run of the \<^verbatim>\<open>for dr, dc in [...]\<close> loop: either the
  function returned \<^verbatim>\<open>new_path\<close> from inside the loop, or the loop ran to its end
  and left the updated \<^verbatim>\<open>seen\<close> set and \<^verbatim>\<open>queue\<close>.\<close>

datatype step = Found "cell list" | Continue "cell set" "cell list list"

subsection \<open>find\_path\<close>

text \<open>The list literal the inner loop iterates over, as pairs \<^verbatim>\<open>(dr, dc)\<close>.\<close>

definition directions :: "(int \<times> int) list" where
  "directions = [(0, 1), (0, -1), (1, 0), (-1, 0)]"

text \<open>
  The condition
  \<^verbatim>\<open>0 <= nr < len(grid) and 0 <= nc < len(grid[0]) and grid[nr][nc] == 0 and (nr, nc) not in seen\<close>.
  The conjunction is evaluated left to right and stops at the first false conjunct, so
  \<^verbatim>\<open>grid[0]\<close> is only read when the grid has a row. The read \<^verbatim>\<open>grid[nr][nc]\<close>
  raises \<^verbatim>\<open>IndexError\<close> when row \<^verbatim>\<open>nr\<close> is shorter than row \<^verbatim>\<open>0\<close>.
\<close>

definition passable :: "grid \<Rightarrow> cell \<Rightarrow> cell set \<Rightarrow> error + bool" where
  "passable grid n seen =
     (case n of (nr, nc) \<Rightarrow>
        if 0 \<le> nr \<and> nr < int (length grid) then
          if 0 \<le> nc \<and> nc < int (length (grid ! 0)) then
            if nat nc < length (grid ! nat nr)
            then Inr (grid ! nat nr ! nat nc = 0 \<and> (nr, nc) \<notin> seen)
            else Inl IndexError
          else Inr False
        else Inr False)"

text \<open>The body of the \<^verbatim>\<open>for\<close> loop, by recursion on the directions still to try;
  \<open>rc\<close> is \<^verbatim>\<open>(r, c) = path[-1]\<close>.\<close>

fun explore ::
  "grid \<Rightarrow> cell \<Rightarrow> cell list \<Rightarrow> cell \<Rightarrow> (int \<times> int) list \<Rightarrow> cell set \<Rightarrow> cell list list
     \<Rightarrow> error + step" where
  "explore grid end path rc [] seen queue = Inr (Continue seen queue)"
| "explore grid end path rc (d # ds) seen queue =
     (let n = (fst rc + fst d, snd rc + snd d) in
      case passable grid n seen of
        Inl e \<Rightarrow> Inl e
      | Inr False \<Rightarrow> explore grid end path rc ds seen queue
      | Inr True \<Rightarrow>
          (let new_path = path @ [n]; seen' = insert n seen in
           if n = end then Inr (Found new_path)
           else explore grid end path rc ds seen' (queue @ [new_path])))"

text \<open>The cells inside the rectangle \<^verbatim>\<open>len(grid)\<close> by \<^verbatim>\<open>len(grid[0])\<close>; only these
  can enter \<^verbatim>\<open>seen\<close> after the start cell, which bounds the loop.\<close>

definition in_bounds :: "grid \<Rightarrow> cell \<Rightarrow> bool" where
  "in_bounds grid n =
     (0 \<le> fst n \<and> fst n < int (length grid) \<and> 0 \<le> snd n \<and> snd n < int (length (grid ! 0)))"

definition unseen :: "grid \<Rightarrow> cell set \<Rightarrow> cell set" where
  "unseen grid seen = {n. in_bounds grid n} - seen"

lemma in_bounds_box:
  "{n. in_bounds grid n} = {0 ..< int (length grid)} \<times> {0 ..< int (length (grid ! 0))}"
  by (auto simp: in_bounds_def)

lemma finite_unseen: "finite (unseen grid seen)"
  by (simp add: unseen_def in_bounds_box)

lemma passable_in_bounds:
  "passable grid n seen = Inr True \<Longrightarrow> in_bounds grid n \<and> n \<notin> seen"
  by (cases n) (auto simp: passable_def in_bounds_def split: if_splits)

lemma card_unseen_insert:
  assumes "in_bounds grid n" "n \<notin> seen"
  shows "Suc (card (unseen grid (insert n seen))) = card (unseen grid seen)"
proof -
  have "unseen grid (insert n seen) = unseen grid seen - {n}"
    by (auto simp: unseen_def)
  moreover have "n \<in> unseen grid seen"
    using assms by (simp add: unseen_def)
  ultimately show ?thesis
    using card_Suc_Diff1 [OF finite_unseen, of n grid seen] by simp
qed

lemma explore_measure:
  "explore grid end path rc ds seen queue = Inr (Continue seen' queue') \<Longrightarrow>
   2 * card (unseen grid seen') + length queue' \<le> 2 * card (unseen grid seen) + length queue"
proof (induction ds arbitrary: seen queue)
  case Nil
  then show ?case by simp
next
  case (Cons d ds)
  let ?n = "(fst rc + fst d, snd rc + snd d)"
  show ?case
  proof (cases "passable grid ?n seen")
    case (Inl e)
    with Cons.prems show ?thesis by simp
  next
    case (Inr b)
    show ?thesis
    proof (cases b)
      case False
      with Inr Cons show ?thesis by simp
    next
      case True
      with Inr Cons.prems have ne: "?n \<noteq> end"
        and rest: "explore grid end path rc ds (insert ?n seen) (queue @ [path @ [?n]])
                    = Inr (Continue seen' queue')"
        by (auto simp: Let_def split: if_splits)
      from Inr True have "in_bounds grid ?n" "?n \<notin> seen"
        using passable_in_bounds [of grid ?n seen] by simp_all
      then have "Suc (card (unseen grid (insert ?n seen))) = card (unseen grid seen)"
        by (rule card_unseen_insert)
      with Cons.IH [OF rest] show ?thesis by simp
    qed
  qed
qed

text \<open>
  The \<^verbatim>\<open>while queue:\<close> loop. \<^verbatim>\<open>path[-1]\<close> raises \<^verbatim>\<open>IndexError\<close> on an empty
  path. The loop ends: every round removes one path from the queue and appends one path
  for each cell it adds to \<^verbatim>\<open>seen\<close>, and only cells inside the rectangle are added.
\<close>

function bfs :: "grid \<Rightarrow> cell \<Rightarrow> cell list list \<Rightarrow> cell set \<Rightarrow> error + cell list option" where
  "bfs grid end [] seen = Inr None"
| "bfs grid end (path # queue) seen =
     (if path = [] then Inl IndexError
      else case explore grid end path (last path) directions seen queue of
        Inl e \<Rightarrow> Inl e
      | Inr (Found new_path) \<Rightarrow> Inr (Some new_path)
      | Inr (Continue seen' queue') \<Rightarrow> bfs grid end queue' seen')"
  by pat_completeness auto
termination
proof (relation "measure (\<lambda>(grid, end, queue, seen). 2 * card (unseen grid seen) + length queue)")
  show "wf (measure (\<lambda>(grid, end, queue, seen). 2 * card (unseen grid seen) + length queue))"
    by simp
next
  fix grid :: grid and "end" :: cell and path :: "cell list" and queue :: "cell list list"
    and seen :: "cell set" and x2 :: step and seen' :: "cell set" and queue' :: "cell list list"
  assume "explore grid end path (last path) directions seen queue = Inr x2"
    and "x2 = Continue seen' queue'"
  then have "2 * card (unseen grid seen') + length queue'
              \<le> 2 * card (unseen grid seen) + length queue"
    using explore_measure by blast
  then show "((grid, end, queue', seen'), (grid, end, path # queue, seen))
              \<in> measure (\<lambda>(grid, end, queue, seen). 2 * card (unseen grid seen) + length queue)"
    by simp
qed

text \<open>\<^verbatim>\<open>find_path\<close>: the queue and the seen set are built first, then the
  \<^verbatim>\<open>start == end\<close> test returns before the loop.\<close>

definition find_path :: "grid \<Rightarrow> cell \<Rightarrow> cell \<Rightarrow> error + cell list option" where
  "find_path grid start end =
     (let queue = [[start]]; seen = {start} in
      if start = end then Inr (Some [start])
      else bfs grid end queue seen)"

subsection \<open>Grids, walks and shortest paths\<close>

text \<open>A grid as \<^verbatim>\<open>get_ai_move\<close> builds it: every row as long as row 0.\<close>

definition rectangular :: "grid \<Rightarrow> bool" where
  "rectangular grid = (\<forall>row \<in> set grid. length row = length (grid ! 0))"

text \<open>An open cell lies inside the grid and holds \<^verbatim>\<open>0\<close>; two cells are adjacent when
  they differ by one unit in exactly one axis.\<close>

definition open_cell :: "grid \<Rightarrow> cell \<Rightarrow> bool" where
  "open_cell grid n = (in_bounds grid n \<and> grid ! nat (fst n) ! nat (snd n) = 0)"

definition adjacent :: "cell \<Rightarrow> cell \<Rightarrow> bool" where
  "adjacent a b = (\<bar>fst a - fst b\<bar> + \<bar>snd a - snd b\<bar> = 1)"

text \<open>
  A walk is a non-empty list of cells in which every cell after the first is open and
  adjacent to the cell before it. The first cell is not tested: the search never reads the
  grid at \<^verbatim>\<open>start\<close>. For a start cell that is open and inside the grid, the walks from it
  are the walks of the graph of open cells.
\<close>

fun walk :: "grid \<Rightarrow> cell list \<Rightarrow> bool" where
  "walk grid [] = False"
| "walk grid [a] = True"
| "walk grid (a # b # p) = (adjacent a b \<and> open_cell grid b \<and> walk grid (b # p))"

definition path_between :: "grid \<Rightarrow> cell \<Rightarrow> cell \<Rightarrow> cell list \<Rightarrow> bool" where
  "path_between grid s e p = (walk grid p \<and> hd p = s \<and> last p = e)"

definition reachable :: "grid \<Rightarrow> cell \<Rightarrow> cell \<Rightarrow> bool" where
  "reachable grid s e = (\<exists>p. path_between grid s e p)"

definition shortest_between :: "grid \<Rightarrow> cell \<Rightarrow> cell \<Rightarrow> cell list \<Rightarrow> bool" where
  "shortest_between grid s e p =
     (path_between grid s e p \<and> (\<forall>q. path_between grid s e q \<longrightarrow> length p \<le> length q))"

text \<open>The cells \<^verbatim>\<open>(r + dr, c + dc)\<close> the inner loop visits, in its order.\<close>

definition neighbours :: "cell \<Rightarrow> (int \<times> int) list \<Rightarrow> cell list" where
  "neighbours rc ds = map (\<lambda>d. (fst rc + fst d, snd rc + snd d)) ds"

lemma walk_nonempty: "walk grid p \<Longrightarrow> p \<noteq> []"
  by (cases p) auto

lemma walk_snoc:
  "p \<noteq> [] \<Longrightarrow> walk grid (p @ [n]) = (walk grid p \<and> adjacent (last p) n \<and> open_cell grid n)"
  by (induction grid p rule: walk.induct) auto

lemma adjacent_neighbours: "adjacent rc n = (n \<in> set (neighbours rc directions))"
  by (cases rc; cases n) (auto simp: adjacent_def neighbours_def directions_def)

lemma distinct_directions: "distinct directions"
  by (simp add: directions_def)

lemma neighbours_Cons:
  "neighbours rc (d # ds) = (fst rc + fst d, snd rc + snd d) # neighbours rc ds"
  by (simp add: neighbours_def)

lemma neighbour_notin:
  "d \<notin> set ds \<Longrightarrow> (fst rc + fst d, snd rc + snd d) \<notin> set (neighbours rc ds)"
  by (cases d) (auto simp: neighbours_def)

lemma passable_rect:
  assumes "rectangular grid"
  shows "passable grid n seen = Inr (open_cell grid n \<and> n \<notin> seen)"
proof (cases "in_bounds grid n")
  case False
  then show ?thesis
    by (cases n) (auto simp: passable_def open_cell_def in_bounds_def)
next
  case True
  then have "nat (fst n) < length grid"
    unfolding in_bounds_def by linarith
  then have "grid ! nat (fst n) \<in> set grid"
    by simp
  with assms have "length (grid ! nat (fst n)) = length (grid ! 0)"
    by (simp add: rectangular_def)
  with True show ?thesis
    by (cases n) (auto simp: passable_def open_cell_def in_bounds_def)
qed

lemma explore_rect:
  assumes "rectangular grid"
  shows "distinct ds \<Longrightarrow>
    explore grid e path rc ds seen queue =
      Inr (let new = filter (\<lambda>n. open_cell grid n \<and> n \<notin> seen) (neighbours rc ds) in
           if e \<in> set new then Found (path @ [e])
           else Continue (seen \<union> set new) (queue @ map (\<lambda>n. path @ [n]) new))"
proof (induction ds arbitrary: seen queue)
  case Nil
  then show ?case by (simp add: neighbours_def)
next
  case (Cons d ds)
  let ?n = "(fst rc + fst d, snd rc + snd d)"
  from Cons.prems have dist: "distinct ds" and notin: "?n \<notin> set (neighbours rc ds)"
    using neighbour_notin [of d ds rc] by simp_all
  have pass: "passable grid ?n seen = Inr (open_cell grid ?n \<and> ?n \<notin> seen)"
    using assms by (rule passable_rect)
  show ?case
  proof (cases "open_cell grid ?n \<and> ?n \<notin> seen")
    case False
    then have "filter (\<lambda>n. open_cell grid n \<and> n \<notin> seen) (neighbours rc (d # ds))
             = filter (\<lambda>n. open_cell grid n \<and> n \<notin> seen) (neighbours rc ds)"
      by (auto simp: neighbours_Cons)
    with False pass Cons.IH [OF dist, of seen queue] show ?thesis
      by (auto simp: Let_def)
  next
    case True
    have same: "filter (\<lambda>m. open_cell grid m \<and> m \<notin> insert ?n seen) (neighbours rc ds)
              = filter (\<lambda>m. open_cell grid m \<and> m \<notin> seen) (neighbours rc ds)"
      using notin by (intro filter_cong) auto
    have new: "filter (\<lambda>n. open_cell grid n \<and> n \<notin> seen) (neighbours rc (d # ds))
             = ?n # filter (\<lambda>m. open_cell grid m \<and> m \<notin> seen) (neighbours rc ds)"
      using True by (simp add: neighbours_Cons)
    show ?thesis
    proof (cases "?n = e")
      case True
      with \<open>open_cell grid ?n \<and> ?n \<notin> seen\<close> pass new show ?thesis
        by (simp add: Let_def)
    next
      case False
      with \<open>open_cell grid ?n \<and> ?n \<notin> seen\<close> pass
      have "explore grid e path rc (d # ds) seen queue
            = explore grid e path rc ds (insert ?n seen) (queue @ [path @ [?n]])"
        by (simp add: Let_def)
      also note Cons.IH [OF dist, of "insert ?n seen" "queue @ [path @ [?n]]"]
      finally show ?thesis
        using False unfolding new same by (auto simp: Let_def)
    qed
  qed
qed

subsection \<open>The invariant of the search loop\<close>

text \<open>
  At the head of every round of the \<^verbatim>\<open>while\<close> loop, for the search from \<open>s\<close> to
  \<open>e\<close>: the start is seen and the goal is not; every queued path is a shortest walk from
  \<open>s\<close> to its last cell; the queue is ordered by length and spans at most two lengths;
  every seen cell is either the end of a queued path or has all its open neighbours seen;
  and every walk to an unseen cell is longer than the path at the head of the queue.
\<close>

definition bfs_inv :: "grid \<Rightarrow> cell \<Rightarrow> cell \<Rightarrow> cell list list \<Rightarrow> cell set \<Rightarrow> bool" where
  "bfs_inv grid s e queue seen =
     (s \<in> seen \<and> e \<notin> seen \<and>
      (\<forall>p \<in> set queue. shortest_between grid s (last p) p) \<and>
      sorted (map length queue) \<and>
      (\<forall>p \<in> set queue. length p \<le> Suc (length (hd queue))) \<and>
      (\<forall>v \<in> seen. (\<exists>p \<in> set queue. last p = v) \<or>
                   (\<forall>w. adjacent v w \<and> open_cell grid w \<longrightarrow> w \<in> seen)) \<and>
      (\<forall>v q. queue \<noteq> [] \<and> v \<notin> seen \<and> path_between grid s v q
               \<longrightarrow> length (hd queue) < length q))"

lemma path_between_snoc:
  assumes "path_between grid s u p" "adjacent u n" "open_cell grid n"
  shows "path_between grid s n (p @ [n])"
proof -
  from assms(1) have "walk grid p" "hd p = s" "last p = u"
    by (simp_all add: path_between_def)
  moreover from \<open>walk grid p\<close> have "p \<noteq> []"
    by (rule walk_nonempty)
  ultimately show ?thesis
    using assms(2,3) by (simp add: path_between_def walk_snoc)
qed

lemma path_between_butlast:
  assumes "path_between grid s v q" "v \<noteq> s"
  shows "\<exists>q0 u. q = q0 @ [v] \<and> path_between grid s u q0 \<and> adjacent u v \<and> open_cell grid v"
proof -
  from assms(1) have w: "walk grid q" and h: "hd q = s" and l: "last q = v"
    by (simp_all add: path_between_def)
  from w have ne: "q \<noteq> []"
    by (rule walk_nonempty)
  then have q: "q = butlast q @ [v]"
    using l by (metis append_butlast_last_id)
  have b: "butlast q \<noteq> []"
  proof
    assume "butlast q = []"
    with q have "q = [v]" by simp
    with h assms(2) show False by simp
  qed
  from w q have "walk grid (butlast q @ [v])"
    by simp
  with b have "walk grid (butlast q)" "adjacent (last (butlast q)) v" "open_cell grid v"
    by (simp_all add: walk_snoc)
  moreover from b h q have "hd (butlast q) = s"
    by (metis hd_append2)
  ultimately have "path_between grid s (last (butlast q)) (butlast q)"
    by (simp add: path_between_def)
  with q \<open>adjacent (last (butlast q)) v\<close> \<open>open_cell grid v\<close> show ?thesis
    by blast
qed

lemma bfs_inv_found:
  assumes inv: "bfs_inv grid s e (p # queue) seen"
    and n: "adjacent (last p) n" "open_cell grid n" "n \<notin> seen"
  shows "shortest_between grid s n (p @ [n])"
proof -
  from inv have "shortest_between grid s (last p) p"
    by (simp add: bfs_inv_def)
  then have "path_between grid s (last p) p"
    by (simp add: shortest_between_def)
  then have pb: "path_between grid s n (p @ [n])"
    using n(1,2) by (rule path_between_snoc)
  have "length (p @ [n]) \<le> length q" if "path_between grid s n q" for q
  proof -
    from inv n(3) that have "length (hd (p # queue)) < length q"
      unfolding bfs_inv_def by blast
    then show ?thesis by simp
  qed
  with pb show ?thesis
    by (simp add: shortest_between_def)
qed

lemma set_new_neighbours:
  "set (filter (\<lambda>n. open_cell grid n \<and> n \<notin> seen) (neighbours u directions))
     = {n. adjacent u n \<and> open_cell grid n \<and> n \<notin> seen}"
  by (auto simp: adjacent_neighbours)

lemma sorted_same_length:
  "\<forall>x \<in> set xs. length x = k \<Longrightarrow> sorted (map length xs)"
  by (induction xs) auto

lemma sorted_hd_length:
  "sorted (map length xs) \<Longrightarrow> x \<in> set xs \<Longrightarrow> length (hd xs) \<le> length x"
  by (cases xs) auto

lemma bfs_inv_step:
  assumes inv: "bfs_inv grid s e (p # queue) seen"
    and new: "new = filter (\<lambda>n. open_cell grid n \<and> n \<notin> seen) (neighbours (last p) directions)"
    and e: "e \<notin> set new"
  shows "bfs_inv grid s e (queue @ map (\<lambda>n. p @ [n]) new) (seen \<union> set new)"
proof -
  let ?Q = "queue @ map (\<lambda>n. p @ [n]) new"
  let ?S = "seen \<union> set new"
  have setnew: "set new = {n. adjacent (last p) n \<and> open_cell grid n \<and> n \<notin> seen}"
    unfolding new by (rule set_new_neighbours)
  from inv have s: "s \<in> seen" and e0: "e \<notin> seen"
    and sh: "\<forall>p' \<in> set (p # queue). shortest_between grid s (last p') p'"
    and so: "sorted (map length (p # queue))"
    and le: "\<forall>p' \<in> set (p # queue). length p' \<le> Suc (length (hd (p # queue)))"
    and cl: "\<forall>v \<in> seen. (\<exists>p' \<in> set (p # queue). last p' = v) \<or>
                   (\<forall>w. adjacent v w \<and> open_cell grid w \<longrightarrow> w \<in> seen)"
    and far: "\<forall>v q. v \<notin> seen \<and> path_between grid s v q \<longrightarrow> length p < length q"
    by (simp_all add: bfs_inv_def)
  have lo: "length p \<le> length p'" if "p' \<in> set ?Q" for p'
    using that so by auto
  have hi: "length p' \<le> Suc (length p)" if "p' \<in> set ?Q" for p'
    using that le by auto
  have 1: "s \<in> ?S" "e \<notin> ?S"
    using s e0 e by simp_all
  have 2: "shortest_between grid s (last p') p'" if "p' \<in> set ?Q" for p'
  proof (cases "p' \<in> set queue")
    case True
    with sh show ?thesis by simp
  next
    case False
    with that obtain n where "n \<in> set new" "p' = p @ [n]"
      by auto
    with setnew bfs_inv_found [OF inv, of n] show ?thesis
      by simp
  qed
  have 3: "sorted (map length ?Q)"
  proof -
    have a: "sorted (map length queue)"
      using so by simp
    have b: "sorted (map length (map (\<lambda>n. p @ [n]) new))"
      by (rule sorted_same_length [where k = "Suc (length p)"]) auto
    have c: "\<forall>x \<in> set (map length queue).
               \<forall>y \<in> set (map length (map (\<lambda>n. p @ [n]) new)). x \<le> y"
      using le by auto
    show ?thesis
      unfolding map_append sorted_append using a b c by blast
  qed
  have 4: "length p' \<le> Suc (length (hd ?Q))" if "p' \<in> set ?Q" for p'
  proof -
    from that have "?Q \<noteq> []" by auto
    then have "hd ?Q \<in> set ?Q" by (rule hd_in_set)
    then have "length p \<le> length (hd ?Q)" by (rule lo)
    with hi [OF that] show ?thesis by simp
  qed
  have 5: "(\<exists>p' \<in> set ?Q. last p' = v) \<or> (\<forall>w. adjacent v w \<and> open_cell grid w \<longrightarrow> w \<in> ?S)"
    if "v \<in> ?S" for v
  proof (cases "v \<in> set new")
    case True
    then have "p @ [v] \<in> set ?Q" by simp
    moreover have "last (p @ [v]) = v" by simp
    ultimately show ?thesis by blast
  next
    case False
    with that have "v \<in> seen" by simp
    with cl consider "\<exists>p' \<in> set queue. last p' = v" | "last p = v"
      | "\<forall>w. adjacent v w \<and> open_cell grid w \<longrightarrow> w \<in> seen"
      by auto
    then show ?thesis
    proof cases
      case 1
      then show ?thesis by auto
    next
      case 2
      then have "\<forall>w. adjacent v w \<and> open_cell grid w \<longrightarrow> w \<in> ?S"
        using setnew by auto
      then show ?thesis ..
    next
      case 3
      then show ?thesis by auto
    qed
  qed
  have 6: "length (hd ?Q) < length q"
    if "?Q \<noteq> []" "v \<notin> ?S" "path_between grid s v q" for v q
  proof (rule ccontr)
    assume "\<not> length (hd ?Q) < length q"
    then have qle: "length q \<le> length (hd ?Q)" by simp
    from that(2) have vs: "v \<notin> seen" by simp
    with far that(3) have pq: "length p < length q" by blast
    from that(1) have "hd ?Q \<in> set ?Q" by (rule hd_in_set)
    then have "length (hd ?Q) \<le> Suc (length p)" by (rule hi)
    with qle pq have lq: "length q = Suc (length p)" and lh: "length (hd ?Q) = Suc (length p)"
      by simp_all
    from vs s have "v \<noteq> s" by auto
    with that(3) obtain q0 u where q0: "q = q0 @ [v]" "path_between grid s u q0"
      "adjacent u v" "open_cell grid v"
      using path_between_butlast by blast
    from q0(1) lq have lq0: "length q0 = length p" by simp
    have "u \<in> seen"
    proof (rule ccontr)
      assume "u \<notin> seen"
      with far q0(2) have "length p < length q0" by blast
      with lq0 show False by simp
    qed
    then have "u \<in> ?S" by simp
    with 5 [of u] q0(3,4) that(2) obtain p' where p': "p' \<in> set ?Q" "last p' = u"
      by blast
    with 2 have "shortest_between grid s u p'" by blast
    with q0(2) have "length p' \<le> length q0"
      by (simp add: shortest_between_def)
    moreover have "length (hd ?Q) \<le> length p'"
      using 3 p'(1) by (rule sorted_hd_length)
    ultimately show False
      using lh lq0 by simp
  qed
  show ?thesis
    unfolding bfs_inv_def using 1 2 3 4 5 6 by blast
qed

lemma walk_closed:
  "walk grid q \<Longrightarrow> hd q \<in> S \<Longrightarrow>
   \<forall>v \<in> S. \<forall>w. adjacent v w \<and> open_cell grid w \<longrightarrow> w \<in> S \<Longrightarrow> last q \<in> S"
  by (induction grid q rule: walk.induct) auto

lemma bfs_inv_empty:
  assumes "bfs_inv grid s e [] seen"
  shows "\<not> reachable grid s e"
proof
  assume "reachable grid s e"
  then obtain q where "walk grid q" "hd q = s" "last q = e"
    by (auto simp: reachable_def path_between_def)
  moreover from assms have "s \<in> seen" "e \<notin> seen"
    and "\<forall>v \<in> seen. \<forall>w. adjacent v w \<and> open_cell grid w \<longrightarrow> w \<in> seen"
    by (simp_all add: bfs_inv_def)
  ultimately show False
    using walk_closed [of grid q seen] by simp
qed

lemma bfs_inv_init:
  assumes "s \<noteq> e"
  shows "bfs_inv grid s e [[s]] {s}"
proof -
  have one: "length q \<le> 1 \<Longrightarrow> path_between grid s v q \<Longrightarrow> v = s" for v q
    by (cases q) (auto simp: path_between_def)
  have far: "\<forall>v q. v \<notin> {s} \<and> path_between grid s v q \<longrightarrow> length (hd [[s]]) < length q"
  proof (intro allI impI)
    fix v q
    assume a: "v \<notin> {s} \<and> path_between grid s v q"
    show "length (hd [[s]]) < length q"
    proof (rule ccontr)
      assume "\<not> length (hd [[s]]) < length q"
      then have "length q \<le> 1" by simp
      with one a show False by blast
    qed
  qed
  have "path_between grid s s [s]"
    by (simp add: path_between_def)
  moreover have "1 \<le> length q" if "path_between grid s s q" for q
    using that walk_nonempty [of grid q] by (cases q) (auto simp: path_between_def)
  ultimately have "shortest_between grid s s [s]"
    by (simp add: shortest_between_def)
  with assms far show ?thesis
    by (simp add: bfs_inv_def)
qed

lemma bfs_correct:
  "rectangular grid \<Longrightarrow> bfs_inv grid s e queue seen \<Longrightarrow>
   (\<exists>p. bfs grid e queue seen = Inr (Some p) \<and> shortest_between grid s e p) \<or>
   (bfs grid e queue seen = Inr None \<and> \<not> reachable grid s e)"
proof (induction grid e queue seen rule: bfs.induct)
  case (1 grid e seen)
  then show ?case
    using bfs_inv_empty by simp
next
  case (2 grid e path queue seen)
  let ?new = "filter (\<lambda>n. open_cell grid n \<and> n \<notin> seen) (neighbours (last path) directions)"
  from "2.prems"(2) have "shortest_between grid s (last path) path"
    by (simp add: bfs_inv_def)
  then have ne: "path \<noteq> []"
    using walk_nonempty by (auto simp: shortest_between_def path_between_def)
  have ex: "explore grid e path (last path) directions seen queue =
      Inr (if e \<in> set ?new then Found (path @ [e])
           else Continue (seen \<union> set ?new) (queue @ map (\<lambda>n. path @ [n]) ?new))"
    using explore_rect [OF "2.prems"(1) distinct_directions, of e path "last path" seen queue]
    by (simp add: Let_def)
  show ?case
  proof (cases "e \<in> set ?new")
    case True
    from True [unfolded set_new_neighbours]
    have "adjacent (last path) e" "open_cell grid e" "e \<notin> seen"
      by simp_all
    then have "shortest_between grid s e (path @ [e])"
      by (rule bfs_inv_found [OF "2.prems"(2)])
    moreover from True ne ex have "bfs grid e (path # queue) seen = Inr (Some (path @ [e]))"
      by simp
    ultimately show ?thesis
      by blast
  next
    case False
    with ex have ex': "explore grid e path (last path) directions seen queue =
        Inr (Continue (seen \<union> set ?new) (queue @ map (\<lambda>n. path @ [n]) ?new))"
      by simp
    have "bfs_inv grid s e (queue @ map (\<lambda>n. path @ [n]) ?new) (seen \<union> set ?new)"
      using "2.prems"(2) refl False by (rule bfs_inv_step)
    with "2.IH" [OF ne ex' refl "2.prems"(1)] ne ex' show ?thesis
      by simp
  qed
qed

lemma find_path_correct:
  assumes "rectangular grid"
  shows "(\<exists>p. find_path grid s e = Inr (Some p) \<and> shortest_between grid s e p) \<or>
         (find_path grid s e = Inr None \<and> \<not> reachable grid s e)"
proof (cases "s = e")
  case True
  have "path_between grid s s [s]"
    by (simp add: path_between_def)
  moreover have "1 \<le> length q" if "path_between grid s s q" for q
    using that walk_nonempty [of grid q] by (cases q) (auto simp: path_between_def)
  ultimately have "shortest_between grid s s [s]"
    by (simp add: shortest_between_def)
  with True show ?thesis
    by (simp add: find_path_def)
next
  case False
  then have "find_path grid s e = bfs grid e [[s]] {s}"
    by (simp add: find_path_def)
  with bfs_correct [OF assms bfs_inv_init [OF False]] show ?thesis
    by simp
qed

subsection \<open>Shortest length, simple paths\<close>

text \<open>The graph distance between two cells, counted in cells as the length of a returned
  path is: the least length of a walk between them.\<close>

definition shortest_length :: "grid \<Rightarrow> cell \<Rightarrow> cell \<Rightarrow> nat" where
  "shortest_length grid s e = (LEAST k. \<exists>q. path_between grid s e q \<and> length q = k)"

text \<open>What every queued path satisfies, on any grid: it is a walk from the start without
  a repeated cell, and all its cells are in \<^verbatim>\<open>seen\<close>.\<close>

definition good_path :: "grid \<Rightarrow> cell \<Rightarrow> cell set \<Rightarrow> cell list \<Rightarrow> bool" where
  "good_path grid s seen p = (walk grid p \<and> hd p = s \<and> distinct p \<and> set p \<subseteq> seen)"

text \<open>The 3 by 3 grid without walls.\<close>

definition open3 :: grid where
  "open3 = [[0, 0, 0], [0, 0, 0], [0, 0, 0]]"

lemma shortest_length_eq:
  assumes "shortest_between grid s e p"
  shows "shortest_length grid s e = length p"
  unfolding shortest_length_def
proof (rule Least_equality)
  from assms show "\<exists>q. path_between grid s e q \<and> length q = length p"
    by (auto simp: shortest_between_def)
next
  fix k
  assume "\<exists>q. path_between grid s e q \<and> length q = k"
  with assms show "length p \<le> k"
    by (auto simp: shortest_between_def)
qed

lemma passable_open:
  "passable grid n seen = Inr True \<Longrightarrow> open_cell grid n \<and> n \<notin> seen"
  by (cases n) (auto simp: passable_def open_cell_def in_bounds_def split: if_splits)

lemma good_path_mono: "good_path grid s seen p \<Longrightarrow> seen \<subseteq> seen' \<Longrightarrow> good_path grid s seen' p"
  by (auto simp: good_path_def)

lemma good_path_snoc:
  assumes "good_path grid s seen path" "adjacent (last path) n" "open_cell grid n" "n \<notin> seen"
  shows "good_path grid s (insert n seen) (path @ [n])"
proof -
  from assms(1) have w: "walk grid path" and h: "hd path = s" and d: "distinct path"
    and sub: "set path \<subseteq> seen"
    by (simp_all add: good_path_def)
  from w have ne: "path \<noteq> []" by (rule walk_nonempty)
  with w assms(2,3) have "walk grid (path @ [n])" by (simp add: walk_snoc)
  moreover from ne h have "hd (path @ [n]) = s" by simp
  moreover from d sub assms(4) have "distinct (path @ [n])" by auto
  moreover from sub have "set (path @ [n]) \<subseteq> insert n seen" by auto
  ultimately show ?thesis by (simp add: good_path_def)
qed

lemma explore_good:
  assumes "good_path grid s seen0 path" "set ds \<subseteq> set directions"
  shows "seen0 \<subseteq> seen \<Longrightarrow> \<forall>p \<in> set queue. good_path grid s seen p \<Longrightarrow>
    (case explore grid e path (last path) ds seen queue of
       Inl err \<Rightarrow> True
     | Inr (Found p') \<Rightarrow> walk grid p' \<and> hd p' = s \<and> distinct p' \<and> last p' = e
     | Inr (Continue seen' queue') \<Rightarrow> seen \<subseteq> seen' \<and> (\<forall>p \<in> set queue'. good_path grid s seen' p))"
  using assms(2)
proof (induction ds arbitrary: seen queue)
  case Nil
  then show ?case by simp
next
  case (Cons d ds)
  let ?n = "(fst (last path) + fst d, snd (last path) + snd d)"
  from Cons.prems(3) have d: "d \<in> set directions" and ds: "set ds \<subseteq> set directions"
    by simp_all
  from d have adj: "adjacent (last path) ?n"
    by (simp add: adjacent_neighbours neighbours_def)
  show ?case
  proof (cases "passable grid ?n seen")
    case (Inl err)
    then show ?thesis by simp
  next
    case (Inr b)
    show ?thesis
    proof (cases b)
      case False
      with Inr Cons.IH [OF Cons.prems(1,2) ds] show ?thesis
        by simp
    next
      case True
      with Inr have op: "open_cell grid ?n" "?n \<notin> seen"
        using passable_open [of grid ?n seen] by simp_all
      from assms(1) Cons.prems(1) have "good_path grid s seen path"
        by (rule good_path_mono)
      then have gp: "good_path grid s (insert ?n seen) (path @ [?n])"
        using adj op by (rule good_path_snoc)
      show ?thesis
      proof (cases "?n = e")
        case True
        with Inr \<open>b\<close> gp show ?thesis
          by (simp add: Let_def good_path_def)
      next
        case False
        have 1: "seen0 \<subseteq> insert ?n seen"
          using Cons.prems(1) by auto
        have 2: "\<forall>p \<in> set (queue @ [path @ [?n]]). good_path grid s (insert ?n seen) p"
          using Cons.prems(2) gp good_path_mono [of grid s seen _ "insert ?n seen"] by auto
        have "explore grid e path (last path) (d # ds) seen queue
              = explore grid e path (last path) ds (insert ?n seen) (queue @ [path @ [?n]])"
          using Inr \<open>b\<close> False by (simp add: Let_def)
        with Cons.IH [OF 1 2 ds] show ?thesis
          by (auto split: sum.splits step.splits)
      qed
    qed
  qed
qed

lemma bfs_good:
  "\<forall>p \<in> set queue. good_path grid s seen p \<Longrightarrow> bfs grid e queue seen = Inr (Some p') \<Longrightarrow>
   walk grid p' \<and> hd p' = s \<and> last p' = e \<and> distinct p'"
proof (induction grid e queue seen rule: bfs.induct)
  case (1 grid e seen)
  then show ?case by simp
next
  case (2 grid e path queue seen)
  from "2.prems"(1) have gp: "good_path grid s seen path"
    and gq: "\<forall>p \<in> set queue. good_path grid s seen p"
    by simp_all
  from gp have ne: "path \<noteq> []"
    using walk_nonempty by (auto simp: good_path_def)
  note ex = explore_good [OF gp subset_refl subset_refl gq, of e]
  show ?case
  proof (cases "explore grid e path (last path) directions seen queue")
    case (Inl err)
    with ne "2.prems"(2) show ?thesis by simp
  next
    case (Inr st)
    show ?thesis
    proof (cases st)
      case (Found p'')
      with Inr ne "2.prems"(2) have "p'' = p'" by simp
      with ex Inr Found show ?thesis
        by simp
    next
      case (Continue seen' queue')
      with Inr ex have "\<forall>p \<in> set queue'. good_path grid s seen' p"
        by simp
      moreover from Inr Continue ne "2.prems"(2) have "bfs grid e queue' seen' = Inr (Some p')"
        by simp
      ultimately show ?thesis
        using "2.IH" [OF ne Inr Continue] by blast
    qed
  qed
qed

lemma walk_adjacent_nth:
  "walk grid p \<Longrightarrow> Suc i < length p \<Longrightarrow> adjacent (p ! i) (p ! Suc i)"
proof (induction grid p arbitrary: i rule: walk.induct)
  case (3 grid a b p)
  then show ?case by (cases i) auto
qed auto

lemma find_path_good:
  assumes "find_path grid s e = Inr (Some p)"
  shows "walk grid p \<and> hd p = s \<and> last p = e \<and> distinct p"
proof (cases "s = e")
  case True
  with assms show ?thesis by (auto simp: find_path_def)
next
  case False
  with assms have "bfs grid e [[s]] {s} = Inr (Some p)"
    by (simp add: find_path_def)
  moreover have "\<forall>q \<in> set [[s]]. good_path grid s {s} q"
    by (simp add: good_path_def)
  ultimately show ?thesis
    using bfs_good by blast
qed

subsection \<open>Properties of find\_path\<close>

text \<open>
  Claim C5. For every grid and every cell \<open>start\<close>, \<^verbatim>\<open>find_path(grid, start, start)\<close>
  returns the single-cell path \<^verbatim>\<open>[start]\<close>, whatever the grid holds.
\<close>

theorem find_path_same_cell: "find_path grid start start = Inr (Some [start])"
  by (simp add: find_path_def)

text \<open>
  Claim C1. For every (rectangular) grid and every pair of cells such that \<open>end\<close> is
  reachable from \<open>start\<close> through open 4-connected cells, \<^verbatim>\<open>find_path\<close> returns a path,
  that path is a walk from \<open>start\<close> to \<open>end\<close>, no walk between them is shorter, and its
  length is the shortest length between the two cells.
\<close>

theorem find_path_shortest:
  assumes "rectangular grid" and "reachable grid start end"
  shows "\<exists>p. find_path grid start end = Inr (Some p) \<and> shortest_between grid start end p \<and>
             length p = shortest_length grid start end"
  using find_path_correct [OF assms(1), of start "end"] assms(2)
  by (auto simp: shortest_length_eq)

text \<open>The 3 by 3 open grid from \<open>(0, 0)\<close> to \<open>(2, 2)\<close>: a path of five cells.\<close>

theorem find_path_shortest_witness:
  "rectangular open3 \<and> reachable open3 (0, 0) (2, 2) \<and>
   find_path open3 (0, 0) (2, 2) = Inr (Some [(0, 0), (0, 1), (0, 2), (1, 2), (2, 2)]) \<and>
   shortest_between open3 (0, 0) (2, 2) [(0, 0), (0, 1), (0, 2), (1, 2), (2, 2)] \<and>
   shortest_length open3 (0, 0) (2, 2) = 5"
proof -
  have r: "rectangular open3"
    by (simp add: rectangular_def open3_def)
  have "path_between open3 (0, 0) (2, 2) [(0, 0), (0, 1), (0, 2), (1, 2), (2, 2)]"
    by (simp add: path_between_def adjacent_def open_cell_def in_bounds_def open3_def)
  then have c: "reachable open3 (0, 0) (2, 2)"
    unfolding reachable_def by blast
  have f: "find_path open3 (0, 0) (2, 2) = Inr (Some [(0, 0), (0, 1), (0, 2), (1, 2), (2, 2)])"
    by (simp add: find_path_def directions_def passable_def Let_def open3_def)
  from find_path_shortest [OF r c] f r c show ?thesis
    by auto
qed

text \<open>
  Claim C4. Every path returned by \<^verbatim>\<open>find_path\<close> starts at the start cell, ends at the
  end cell, has consecutive cells that differ by exactly one unit in exactly one axis,
  repeats no cell and has length at least 1. (It is moreover a walk: every cell after the
  first is open.) This holds on every grid, rectangular or not.
\<close>

theorem find_path_is_simple_path:
  assumes "find_path grid start end = Inr (Some p)"
  shows "hd p = start \<and> last p = end \<and>
         (\<forall>i. Suc i < length p \<longrightarrow> adjacent (p ! i) (p ! Suc i)) \<and>
         distinct p \<and> 1 \<le> length p \<and> walk grid p"
proof -
  from assms have g: "walk grid p \<and> hd p = start \<and> last p = end \<and> distinct p"
    by (rule find_path_good)
  then have "p \<noteq> []" using walk_nonempty by blast
  then have "1 \<le> length p" by (cases p) simp_all
  with g walk_adjacent_nth show ?thesis by blast
qed

text \<open>The path returned on the 3 by 3 open grid.\<close>

theorem find_path_is_simple_path_witness:
  "find_path open3 (0, 0) (2, 2) = Inr (Some [(0, 0), (0, 1), (0, 2), (1, 2), (2, 2)]) \<and>
   hd [(0, 0), (0, 1), (0, 2), (1, 2), (2, 2)] = ((0, 0) :: cell) \<and>
   last [(0, 0), (0, 1), (0, 2), (1, 2), (2, 2)] = ((2, 2) :: cell) \<and>
   adjacent ([(0, 0), (0, 1), (0, 2), (1, 2), (2, 2)] ! 2) ([(0, 0), (0, 1), (0, 2), (1, 2), (2, 2)] ! 3) \<and>
   distinct [(0, 0), (0, 1), (0, 2), (1, 2), (2, 2) :: cell]"
proof -
  have f: "find_path open3 (0, 0) (2, 2) = Inr (Some [(0, 0), (0, 1), (0, 2), (1, 2), (2, 2)])"
    by (simp add: find_path_def directions_def passable_def Let_def open3_def)
  from find_path_is_simple_path [OF f] f show ?thesis
    by (simp add: adjacent_def)
qed

section \<open>The route handler get\_ai\_move\<close>

subsection \<open>The posted game state and the answer\<close>

text \<open>
  The handler expects the JSON body
  \<^verbatim>\<open>{ "grid_size": 32, "width": 640, "height": 480, "objects": [...] }\<close>, each object
  with the keys \<^verbatim>\<open>type\<close>, \<^verbatim>\<open>x\<close> and \<^verbatim>\<open>y\<close>. The model takes the body decoded into
  that shape, with integer numbers; other keys of an object are never read.
\<close>

record game_object =
  obj_type :: string
  obj_x :: int
  obj_y :: int

record game_state =
  width :: int
  height :: int
  grid_size :: int
  objects :: "game_object list"

text \<open>
  The three shapes of \<^verbatim>\<open>jsonify(...)\<close> the handler returns:
  \<^verbatim>\<open>{"status": ..., "next_x": ..., "next_y": ...}\<close> with the default HTTP status 200, and
  \<^verbatim>\<open>{"status": "error", "message": ...}\<close> with an explicit HTTP status.
\<close>

datatype response =
  Reply (status: string) (next_x: int) (next_y: int)
| Failed (status: string) (message: string) (http_status: nat)

text \<open>The local variables \<^verbatim>\<open>grid\<close>, \<^verbatim>\<open>player_pos\<close> and \<^verbatim>\<open>ai_pos\<close> of the handler;
  \<^verbatim>\<open>None\<close> is \<^const>\<open>None\<close>.\<close>

type_synonym scan_state = "grid \<times> cell option \<times> cell option"

text \<open>The type of \<^verbatim>\<open>find_path\<close>.\<close>

type_synonym planner = "grid \<Rightarrow> cell \<Rightarrow> cell \<Rightarrow> error + cell list option"

subsection \<open>Python operations the handler uses\<close>

text \<open>\<^verbatim>\<open>a // b\<close> on integers rounds towards minus infinity, as \<open>div\<close> on \<^typ>\<open>int\<close> does,
  and raises \<^verbatim>\<open>ZeroDivisionError\<close> for \<^verbatim>\<open>b == 0\<close>.\<close>

definition floordiv :: "int \<Rightarrow> int \<Rightarrow> error + int" where
  "floordiv a b = (if b = 0 then Inl ZeroDivisionError else Inr (a div b))"

text \<open>A list index: a negative index counts from the end, and an index outside
  \<open>[-n, n)\<close> raises \<^verbatim>\<open>IndexError\<close>.\<close>

definition py_index :: "nat \<Rightarrow> int \<Rightarrow> error + nat" where
  "py_index n i =
     (let j = (if i < 0 then i + int n else i)
      in if 0 \<le> j \<and> j < int n then Inr (nat j) else Inl IndexError)"

text \<open>The assignment \<^verbatim>\<open>grid[r][c] = 1\<close>: the row is fetched first, then written.\<close>

definition set_cell :: "grid \<Rightarrow> int \<Rightarrow> int \<Rightarrow> error + grid" where
  "set_cell grid r c =
     (case py_index (length grid) r of
        Inl e \<Rightarrow> Inl e
      | Inr i \<Rightarrow>
          (case py_index (length (grid ! i)) c of
             Inl e \<Rightarrow> Inl e
           | Inr j \<Rightarrow> Inr (grid[i := (grid ! i)[j := 1]])))"

subsection \<open>Building the grid\<close>

text \<open>
  One round of \<^verbatim>\<open>for obj in objects\<close>. The cell is computed for every object, whatever
  its type; then the \<^verbatim>\<open>if\<close>/\<^verbatim>\<open>elif\<close> chain on the type follows. An object of any
  other type (\<^verbatim>\<open>goal\<close>, for one) matches no branch.
\<close>

definition place :: "int \<Rightarrow> scan_state \<Rightarrow> game_object \<Rightarrow> error + scan_state" where
  "place gs st obj =
     (case st of (grid, player_pos, ai_pos) \<Rightarrow>
      case floordiv (obj_y obj) gs of
        Inl e \<Rightarrow> Inl e
      | Inr r \<Rightarrow>
     (case floordiv (obj_x obj) gs of
        Inl e \<Rightarrow> Inl e
      | Inr c \<Rightarrow>
          if obj_type obj \<in> set [''wall'', ''enemy''] then
            (case set_cell grid r c of
               Inl e \<Rightarrow> Inl e
             | Inr grid' \<Rightarrow> Inr (grid', player_pos, ai_pos))
          else if obj_type obj = ''player'' then Inr (grid, Some (r, c), ai_pos)
          else if obj_type obj = ''ai_enemy'' then Inr (grid, player_pos, Some (r, c))
          else Inr (grid, player_pos, ai_pos)))"

text \<open>The loop over the objects; an exception ends it.\<close>

fun scan :: "int \<Rightarrow> scan_state \<Rightarrow> game_object list \<Rightarrow> error + scan_state" where
  "scan gs st [] = Inr st"
| "scan gs st (obj # objs) =
     (case place gs st obj of
        Inl e \<Rightarrow> Inl e
      | Inr st' \<Rightarrow> scan gs st' objs)"

text \<open>
  The handler from \<^verbatim>\<open>cols = width // grid_size\<close> to the end of the loop over the
  objects. \<^verbatim>\<open>[0] * cols\<close> is the empty list for \<^verbatim>\<open>cols <= 0\<close> and \<^verbatim>\<open>range(rows)\<close> is
  empty for \<^verbatim>\<open>rows <= 0\<close>; each row is a list of its own.
\<close>

definition build_grid :: "game_state \<Rightarrow> error + scan_state" where
  "build_grid state =
     (case floordiv (width state) (grid_size state) of
        Inl e \<Rightarrow> Inl e
      | Inr cols \<Rightarrow>
     (case floordiv (height state) (grid_size state) of
        Inl e \<Rightarrow> Inl e
      | Inr rows \<Rightarrow>
          scan (grid_size state)
            (replicate (nat rows) (replicate (nat cols) 0), None, None) (objects state)))"

subsection \<open>Planning and the answer\<close>

text \<open>The \<^verbatim>\<open>no_move\<close> answer: the pixel position of the cell \<^verbatim>\<open>ai_pos\<close>.\<close>

definition no_move :: "int \<Rightarrow> cell \<Rightarrow> response" where
  "no_move gs ai_pos = Reply ''no_move'' (snd ai_pos * gs) (fst ai_pos * gs)"

text \<open>
  The body of the \<^verbatim>\<open>try\<close> block. \<^verbatim>\<open>not player_pos\<close> is true only for \<^verbatim>\<open>None\<close>: a
  tuple of two numbers is never falsy. \<^verbatim>\<open>path and len(path) > 1\<close> is false for
  \<^verbatim>\<open>None\<close> and for the empty list. The call of \<^verbatim>\<open>find_path\<close> is the parameter
  \<open>plan\<close>, so that a statement can say that an answer does not depend on it.
\<close>

definition try_ai_move :: "planner \<Rightarrow> game_state \<Rightarrow> error + response" where
  "try_ai_move plan state =
     (case build_grid state of
        Inl e \<Rightarrow> Inl e
      | Inr (grid, player_pos, ai_pos) \<Rightarrow>
          (case (player_pos, ai_pos) of
             (Some player, Some ai) \<Rightarrow>
               (case plan grid ai player of
                  Inl e \<Rightarrow> Inl e
                | Inr None \<Rightarrow> Inr (no_move (grid_size state) ai)
                | Inr (Some path) \<Rightarrow>
                    if path \<noteq> [] \<and> 1 < length path
                    then Inr (Reply ''success'' (snd (path ! 1) * grid_size state)
                                                (fst (path ! 1) * grid_size state))
                    else Inr (no_move (grid_size state) ai))
           | _ \<Rightarrow> Inr (Failed ''error'' ''Player or AI not found'' 400)))"

text \<open>\<^verbatim>\<open>except Exception\<close>: every exception gives the same answer with status 500 (the
  message printed on the console is not modelled).\<close>

definition get_ai_move_with :: "planner \<Rightarrow> game_state \<Rightarrow> response" where
  "get_ai_move_with plan state =
     (case try_ai_move plan state of
        Inl e \<Rightarrow> Failed ''error'' ''Internal server error'' 500
      | Inr resp \<Rightarrow> resp)"

text \<open>The handler as the source has it, planning with \<^const>\<open>find_path\<close>.\<close>

definition get_ai_move :: "game_state \<Rightarrow> response" where
  "get_ai_move state = get_ai_move_with find_path state"

text \<open>Shorthands for writing down concrete requests.\<close>

definition object_at :: "string \<Rightarrow> int \<Rightarrow> int \<Rightarrow> game_object" where
  "object_at t x y = \<lparr>obj_type = t, obj_x = x, obj_y = y\<rparr>"

definition request :: "int \<Rightarrow> int \<Rightarrow> int \<Rightarrow> game_object list \<Rightarrow> game_state" where
  "request w h gs objs = \<lparr>width = w, height = h, grid_size = gs, objects = objs\<rparr>"

subsection \<open>Facts about the grid construction\<close>

text \<open>A grid of \<open>R\<close> rows, each of \<open>C\<close> cells.\<close>

definition dims :: "grid \<Rightarrow> nat \<Rightarrow> nat \<Rightarrow> bool" where
  "dims grid R C = (length grid = R \<and> (\<forall>row \<in> set grid. length row = C))"

text \<open>The cell \<^verbatim>\<open>(obj['y'] // grid_size, obj['x'] // grid_size)\<close> of an object, the types
  that mark a cell, and a cell that is no index of an \<open>R\<close> by \<open>C\<close> grid for Python.\<close>

definition cell_of :: "int \<Rightarrow> game_object \<Rightarrow> cell" where
  "cell_of gs ob = (obj_y ob div gs, obj_x ob div gs)"

definition blocking :: "game_object \<Rightarrow> bool" where
  "blocking ob = (obj_type ob = ''wall'' \<or> obj_type ob = ''enemy'')"

definition out_of_range :: "nat \<Rightarrow> nat \<Rightarrow> cell \<Rightarrow> bool" where
  "out_of_range R C n =
     (int R \<le> fst n \<or> fst n < - int R \<or> int C \<le> snd n \<or> snd n < - int C)"


definition last_of_type :: "string \<Rightarrow> game_object list \<Rightarrow> game_object option" where
  "last_of_type t objs =
     (case filter (\<lambda>ob. obj_type ob = t) objs of [] \<Rightarrow> None | xs \<Rightarrow> Some (last xs))"

definition without_goals :: "game_object list \<Rightarrow> game_object list" where
  "without_goals objs = filter (\<lambda>ob. obj_type ob \<noteq> ''goal'') objs"


definition internal_error :: response where
  "internal_error = Failed ''error'' ''Internal server error'' 500"

lemma dims_replicate: "dims (replicate R (replicate C 0)) R C"
  by (simp add: dims_def)

lemma dims_rectangular: "dims grid R C \<Longrightarrow> rectangular grid"
  by (cases grid) (auto simp: dims_def rectangular_def)

lemma py_index_less: "py_index n i = Inr j \<Longrightarrow> j < n"
  by (auto simp: py_index_def Let_def split: if_splits)

lemma py_index_out: "int n \<le> i \<or> i < - int n \<Longrightarrow> py_index n i = Inl IndexError"
  by (auto simp: py_index_def Let_def)

lemma set_cell_dims:
  assumes "set_cell grid r c = Inr grid'" "dims grid R C"
  shows "dims grid' R C"
proof -
  from assms(1) obtain i j where i: "py_index (length grid) r = Inr i"
    and g: "grid' = grid[i := (grid ! i)[j := 1]]"
    by (auto simp: set_cell_def split: sum.splits)
  from i have "i < length grid" by (rule py_index_less)
  with assms(2) have "length ((grid ! i)[j := 1]) = C"
    by (simp add: dims_def)
  with assms(2) show ?thesis
    unfolding g dims_def by (auto dest: set_update_subset_insert [THEN subsetD])
qed

lemma set_cell_out:
  assumes "dims grid R C" "out_of_range R C (r, c)"
  shows "set_cell grid r c = Inl IndexError"
proof (cases "py_index (length grid) r")
  case (Inl e)
  then have "e = IndexError"
    by (auto simp: py_index_def Let_def split: if_splits)
  with Inl show ?thesis by (simp add: set_cell_def)
next
  case (Inr i)
  then have "i < length grid" by (rule py_index_less)
  with assms(1) have len: "length (grid ! i) = C" and R: "length grid = R"
    by (simp_all add: dims_def)
  from Inr R have "\<not> (int R \<le> r \<or> r < - int R)"
    using py_index_out [of "length grid" r] by auto
  with assms(2) have "int C \<le> c \<or> c < - int C"
    by (simp add: out_of_range_def)
  then have "py_index C c = Inl IndexError" by (rule py_index_out)
  with Inr len show ?thesis by (simp add: set_cell_def)
qed

lemma place_cases:
  assumes "gs \<noteq> 0"
  shows "place gs (grid, pp, ap) ob =
     (if blocking ob then
        (case set_cell grid (fst (cell_of gs ob)) (snd (cell_of gs ob)) of
           Inl e \<Rightarrow> Inl e | Inr grid' \<Rightarrow> Inr (grid', pp, ap))
      else if obj_type ob = ''player'' then Inr (grid, Some (cell_of gs ob), ap)
      else if obj_type ob = ''ai_enemy'' then Inr (grid, pp, Some (cell_of gs ob))
      else Inr (grid, pp, ap))"
  using assms by (simp add: place_def floordiv_def blocking_def cell_of_def)

lemma place_dims:
  assumes "place gs (grid, pp, ap) ob = Inr (grid', pp', ap')" "dims grid R C"
  shows "dims grid' R C"
proof (cases "gs = 0")
  case True
  with assms(1) show ?thesis by (simp add: place_def floordiv_def)
next
  case False
  show ?thesis
  proof (cases "blocking ob")
    case True
    with assms(1) False have "set_cell grid (fst (cell_of gs ob)) (snd (cell_of gs ob)) = Inr grid'"
      by (auto simp: place_cases split: sum.splits)
    then show ?thesis using assms(2) by (rule set_cell_dims)
  next
    case nb: False
    with assms(1) False have "grid' = grid"
      by (auto simp: place_cases split: if_splits)
    with assms(2) show ?thesis by simp
  qed
qed

lemma scan_dims:
  "scan gs (grid, pp, ap) objs = Inr (grid', pp', ap') \<Longrightarrow> dims grid R C \<Longrightarrow> dims grid' R C"
proof (induction objs arbitrary: grid pp ap)
  case Nil
  then show ?case by simp
next
  case (Cons ob objs)
  from Cons.prems(1) obtain g1 p1 a1 where 1: "place gs (grid, pp, ap) ob = Inr (g1, p1, a1)"
    and 2: "scan gs (g1, p1, a1) objs = Inr (grid', pp', ap')"
    by (auto split: sum.splits)
  from 1 Cons.prems(2) have "dims g1 R C" by (rule place_dims)
  with 2 show ?case by (rule Cons.IH)
qed

lemma scan_out_of_range:
  assumes "gs \<noteq> 0"
  shows "dims grid R C \<Longrightarrow> ob \<in> set objs \<Longrightarrow> blocking ob \<Longrightarrow>
         out_of_range R C (cell_of gs ob) \<Longrightarrow> scan gs (grid, pp, ap) objs = Inl IndexError"
proof (induction objs arbitrary: grid pp ap)
  case Nil
  then show ?case by simp
next
  case (Cons o1 objs)
  show ?case
  proof (cases "place gs (grid, pp, ap) o1")
    case (Inl e)
    have "e = IndexError"
    proof (cases "blocking o1")
      case True
      with Inl assms show ?thesis
        by (auto simp: place_cases set_cell_def py_index_def Let_def split: sum.splits if_splits)
    next
      case False
      with Inl assms show ?thesis
        by (auto simp: place_cases split: if_splits)
    qed
    with Inl show ?thesis by simp
  next
    case (Inr st1)
    obtain g1 p1 a1 where st1: "st1 = (g1, p1, a1)" by (cases st1) auto
    with Inr Cons.prems(1) have d1: "dims g1 R C" using place_dims by blast
    have "ob \<noteq> o1"
    proof
      assume "ob = o1"
      with Cons.prems have "set_cell grid (fst (cell_of gs o1)) (snd (cell_of gs o1)) = Inl IndexError"
        using set_cell_out [of grid R C "fst (cell_of gs o1)" "snd (cell_of gs o1)"] by simp
      with \<open>ob = o1\<close> Cons.prems(3) assms have "place gs (grid, pp, ap) o1 = Inl IndexError"
        by (simp add: place_cases)
      with Inr show False by simp
    qed
    with Cons.prems(2) have "ob \<in> set objs" by simp
    with Cons.IH [OF d1 _ Cons.prems(3,4), of p1 a1] Inr st1 show ?thesis
      by simp
  qed
qed


lemma last_of_type_Cons:
  "last_of_type t (ob # objs) =
     (case last_of_type t objs of
        Some x \<Rightarrow> Some x
      | None \<Rightarrow> if obj_type ob = t then Some ob else None)"
  by (auto simp: last_of_type_def split: list.splits)

lemma scan_positions:
  assumes "gs \<noteq> 0"
  shows "scan gs (grid, pp, ap) objs = Inr (grid', pp', ap') \<Longrightarrow>
    pp' = (case last_of_type ''player'' objs of None \<Rightarrow> pp | Some ob \<Rightarrow> Some (cell_of gs ob)) \<and>
    ap' = (case last_of_type ''ai_enemy'' objs of None \<Rightarrow> ap | Some ob \<Rightarrow> Some (cell_of gs ob))"
proof (induction objs arbitrary: grid pp ap)
  case Nil
  then show ?case by (simp add: last_of_type_def)
next
  case (Cons o1 objs)
  from Cons.prems obtain g1 p1 a1 where 1: "place gs (grid, pp, ap) o1 = Inr (g1, p1, a1)"
    and 2: "scan gs (g1, p1, a1) objs = Inr (grid', pp', ap')"
    by (auto split: sum.splits)
  from 1 assms have p1: "p1 = (if obj_type o1 = ''player'' then Some (cell_of gs o1) else pp)"
    and a1: "a1 = (if obj_type o1 = ''ai_enemy'' then Some (cell_of gs o1) else ap)"
    by (auto simp: place_cases blocking_def split: if_splits sum.splits)
  from Cons.IH [OF 2] show ?case
    unfolding last_of_type_Cons p1 a1 by (auto split: option.splits)
qed


lemma build_grid_Inr:
  assumes "build_grid state = Inr (grid, pp, ap)"
  shows "grid_size state \<noteq> 0"
    and "scan (grid_size state)
           (replicate (nat (height state div grid_size state))
              (replicate (nat (width state div grid_size state)) 0), None, None)
           (objects state) = Inr (grid, pp, ap)"
  using assms by (auto simp: build_grid_def floordiv_def split: if_splits)

lemma build_grid_positions:
  assumes "build_grid state = Inr (grid, pp, ap)"
  shows "pp = map_option (cell_of (grid_size state)) (last_of_type ''player'' (objects state))"
    and "ap = map_option (cell_of (grid_size state)) (last_of_type ''ai_enemy'' (objects state))"
  using scan_positions [OF build_grid_Inr [OF assms]]
  by (auto split: option.splits)

lemma build_grid_rectangular:
  assumes "build_grid state = Inr (grid, pp, ap)"
  shows "rectangular grid"
  using scan_dims [OF build_grid_Inr(2) [OF assms] dims_replicate] dims_rectangular by blast

lemma place_goal:
  "gs \<noteq> 0 \<Longrightarrow> obj_type ob = ''goal'' \<Longrightarrow> place gs st ob = Inr st"
  by (cases st) (simp add: place_def floordiv_def)

lemma scan_without_goals:
  "gs \<noteq> 0 \<Longrightarrow> scan gs st (without_goals objs) = scan gs st objs"
proof (induction objs arbitrary: st)
  case Nil
  then show ?case by (simp add: without_goals_def)
next
  case (Cons ob objs)
  show ?case
  proof (cases "obj_type ob = ''goal''")
    case True
    with Cons show ?thesis
      by (simp add: without_goals_def place_goal)
  next
    case False
    with Cons show ?thesis
      by (simp add: without_goals_def split: sum.splits)
  qed
qed

lemma build_grid_without_goals:
  "build_grid (state\<lparr>objects := without_goals (objects state)\<rparr>) = build_grid state"
  by (simp add: build_grid_def floordiv_def scan_without_goals)

subsection \<open>Properties of get\_ai\_move\<close>


lemma try_ai_move_present:
  assumes "build_grid state = Inr (grid, Some player, Some ai)"
  shows "try_ai_move plan state =
     (case plan grid ai player of
        Inl e \<Rightarrow> Inl e
      | Inr None \<Rightarrow> Inr (no_move (grid_size state) ai)
      | Inr (Some path) \<Rightarrow>
          if 1 < length path
          then Inr (Reply ''success'' (snd (path ! 1) * grid_size state)
                                      (fst (path ! 1) * grid_size state))
          else Inr (no_move (grid_size state) ai))"
  using assms by (auto simp: try_ai_move_def split: sum.splits option.splits)












text \<open>
  Claim C2, as amended. Nothing tests an object's cell against the grid. For an object
  whose cell is no index of the grid (row at least \<open>rows\<close> or below \<open>-rows\<close>, or column at
  least \<open>cols\<close> or below \<open>-cols\<close>): when its type is \<^verbatim>\<open>wall\<close> or \<^verbatim>\<open>enemy\<close>, the
  assignment \<^verbatim>\<open>grid[r][c] = 1\<close> raises \<^verbatim>\<open>IndexError\<close>, the handler catches it and
  the answer is the generic failure with status 500; when it has any other type, the grid
  is not indexed and no cell is marked.
\<close>

theorem blocking_object_out_of_range:
  assumes "grid_size state \<noteq> 0" and "ob \<in> set (objects state)"
    and "out_of_range (nat (height state div grid_size state))
           (nat (width state div grid_size state)) (cell_of (grid_size state) ob)"
  shows "if blocking ob
         then build_grid state = Inl IndexError \<and>
              get_ai_move state = Failed ''error'' ''Internal server error'' 500
         else (\<exists>pp' ap'. place (grid_size state) (grid, pp, ap) ob = Inr (grid, pp', ap'))"
proof (cases "blocking ob")
  case True
  have "scan (grid_size state)
          (replicate (nat (height state div grid_size state))
             (replicate (nat (width state div grid_size state)) 0), None, None) (objects state)
        = Inl IndexError"
    using assms(1) dims_replicate assms(2) True assms(3) by (rule scan_out_of_range)
  with assms(1) have "build_grid state = Inl IndexError"
    by (simp add: build_grid_def floordiv_def)
  with True show ?thesis
    by (simp add: get_ai_move_def get_ai_move_with_def try_ai_move_def)
next
  case False
  with assms(1) show ?thesis
    by (simp add: place_cases)
qed

text \<open>A wall at pixel \<open>(1000, 0)\<close> on a 2 by 2 grid.\<close>

theorem blocking_object_out_of_range_witness:
  "grid_size (request 64 64 32 [object_at ''ai_enemy'' 0 0, object_at ''wall'' 1000 0]) \<noteq> 0 \<and>
   object_at ''wall'' 1000 0
     \<in> set (objects (request 64 64 32 [object_at ''ai_enemy'' 0 0, object_at ''wall'' 1000 0])) \<and>
   cell_of 32 (object_at ''wall'' 1000 0) = (0, 31) \<and>
   out_of_range 2 2 (0, 31) \<and>
   blocking (object_at ''wall'' 1000 0) \<and>
   build_grid (request 64 64 32 [object_at ''ai_enemy'' 0 0, object_at ''wall'' 1000 0])
     = Inl IndexError \<and>
   get_ai_move (request 64 64 32 [object_at ''ai_enemy'' 0 0, object_at ''wall'' 1000 0])
     = Failed ''error'' ''Internal server error'' 500"
proof -
  let ?s = "request 64 64 32 [object_at ''ai_enemy'' 0 0, object_at ''wall'' 1000 0]"
  let ?w = "object_at ''wall'' 1000 0"
  have 1: "grid_size ?s \<noteq> 0" by (simp add: request_def)
  have 2: "?w \<in> set (objects ?s)" by (simp add: request_def)
  have c: "cell_of 32 ?w = (0, 31)" by (simp add: cell_of_def object_at_def)
  have o: "out_of_range 2 2 (0, 31)" by (simp add: out_of_range_def)
  have 3: "out_of_range (nat (height ?s div grid_size ?s)) (nat (width ?s div grid_size ?s))
             (cell_of (grid_size ?s) ?w)"
    by (simp add: request_def cell_of_def object_at_def out_of_range_def)
  have b: "blocking ?w" by (simp add: blocking_def object_at_def)
  from blocking_object_out_of_range [OF 1 2 3] b 1 2 c o show ?thesis
    by simp
qed

text \<open>
  Claim C2 as stated fails: with a wall outside the grid the request is answered with
  the failure of status 500, although without that wall it is answered with a move; and a
  wall at pixel \<open>(-32, 0)\<close>, whose cell \<open>(0, -1)\<close> is outside the grid, marks the cell
  \<open>(0, 1)\<close>.
\<close>

theorem out_of_bounds_object_counterexample:
  "get_ai_move (request 64 64 32
      [object_at ''wall'' 1000 0, object_at ''ai_enemy'' 0 0, object_at ''player'' 32 0])
     = Failed ''error'' ''Internal server error'' 500 \<and>
   get_ai_move (request 64 64 32 [object_at ''ai_enemy'' 0 0, object_at ''player'' 32 0])
     = Reply ''success'' 32 0 \<and>
   build_grid (request 64 64 32 [object_at ''wall'' (- 32) 0])
     = Inr ([[0, 1], [0, 0]], None, None)"
  by (simp add: request_def object_at_def get_ai_move_def get_ai_move_with_def try_ai_move_def
      build_grid_def floordiv_def place_def set_cell_def py_index_def find_path_def
      directions_def passable_def no_move_def Let_def numeral_2_eq_2)

text \<open>
  Claim C10. Two requests with the same width, height and tile size whose object lists
  are equal once the objects of type \<^verbatim>\<open>goal\<close> are removed build the same grid and the
  same actor cells, and get the same answer.
\<close>

theorem goal_noninterference:
  assumes "width s1 = width s2" "height s1 = height s2" "grid_size s1 = grid_size s2"
    and "without_goals (objects s1) = without_goals (objects s2)"
  shows "build_grid s1 = build_grid s2 \<and> get_ai_move s1 = get_ai_move s2 \<and>
         (\<forall>plan. get_ai_move_with plan s1 = get_ai_move_with plan s2)"
proof -
  have "s1\<lparr>objects := without_goals (objects s1)\<rparr> = s2\<lparr>objects := without_goals (objects s2)\<rparr>"
    using assms by (cases s1; cases s2) simp
  then have "build_grid (s1\<lparr>objects := without_goals (objects s1)\<rparr>)
           = build_grid (s2\<lparr>objects := without_goals (objects s2)\<rparr>)"
    by simp
  then have b: "build_grid s1 = build_grid s2"
    by (simp only: build_grid_without_goals)
  have "try_ai_move plan s1 = try_ai_move plan s2" for plan
    unfolding try_ai_move_def b assms(3) by (rule refl)
  with b show ?thesis
    by (simp add: get_ai_move_def get_ai_move_with_def)
qed

text \<open>Two requests that differ in their goals only.\<close>

theorem goal_noninterference_witness:
  "without_goals [object_at ''goal'' 0 0, object_at ''ai_enemy'' 0 0, object_at ''goal'' 999 999,
                  object_at ''player'' 32 0]
     = without_goals [object_at ''ai_enemy'' 0 0, object_at ''player'' 32 0, object_at ''goal'' (- 5) 7] \<and>
   get_ai_move (request 64 64 32 [object_at ''goal'' 0 0, object_at ''ai_enemy'' 0 0,
                  object_at ''goal'' 999 999, object_at ''player'' 32 0])
     = get_ai_move (request 64 64 32 [object_at ''ai_enemy'' 0 0, object_at ''player'' 32 0,
                  object_at ''goal'' (- 5) 7])"
proof -
  let ?o1 = "[object_at ''goal'' 0 0, object_at ''ai_enemy'' 0 0, object_at ''goal'' 999 999,
              object_at ''player'' 32 0]"
  let ?o2 = "[object_at ''ai_enemy'' 0 0, object_at ''player'' 32 0, object_at ''goal'' (- 5) 7]"
  have w: "without_goals ?o1 = without_goals ?o2"
    by (simp add: without_goals_def object_at_def)
  have "get_ai_move (request 64 64 32 ?o1) = get_ai_move (request 64 64 32 ?o2)"
    using goal_noninterference [of "request 64 64 32 ?o1" "request 64 64 32 ?o2"] w
    by (simp add: request_def)
  with w show ?thesis by simp
qed

subsection \<open>The next move, the held position and the order of exploration\<close>

text \<open>The order of the neighbours in the words of the specification (\<open>+row\<close>, \<open>-row\<close>,
  \<open>+col\<close>, \<open>-col\<close>), to compare with \<^const>\<open>directions\<close>, the order of the source.\<close>

definition spec_directions :: "(int \<times> int) list" where
  "spec_directions = [(1, 0), (-1, 0), (0, 1), (0, -1)]"

text \<open>A single row whose middle cell is a wall, and the 2 by 2 grid without walls.\<close>

definition blocked_row :: grid where
  "blocked_row = [[0, 1, 0]]"

definition open2 :: grid where
  "open2 = [[0, 0], [0, 0]]"

lemma get_ai_move_present:
  assumes "build_grid state = Inr (grid, Some player, Some ai)"
  shows "get_ai_move state =
     (case find_path grid ai player of
        Inl e \<Rightarrow> internal_error
      | Inr None \<Rightarrow> no_move (grid_size state) ai
      | Inr (Some path) \<Rightarrow>
          if 1 < length path
          then Reply ''success'' (snd (path ! 1) * grid_size state) (fst (path ! 1) * grid_size state)
          else no_move (grid_size state) ai)"
  by (simp add: get_ai_move_def get_ai_move_with_def try_ai_move_present [OF assms]
      internal_error_def split: sum.splits option.splits)

lemma find_path_unreachable:
  assumes "rectangular grid" "\<not> reachable grid s e"
  shows "find_path grid s e = Inr None"
  using find_path_correct [OF assms(1), of s e] assms(2)
  by (auto simp: reachable_def shortest_between_def)

lemma find_path_None_unreachable:
  assumes "rectangular grid" "find_path grid s e = Inr None"
  shows "\<not> reachable grid s e"
  using find_path_correct [OF assms(1), of s e] assms(2) by auto

text \<open>
  Claim C9. Whenever the search returns a path of more than one cell, the answer is
  \<^verbatim>\<open>success\<close> with \<^verbatim>\<open>next_x = col * grid_size\<close> and \<^verbatim>\<open>next_y = row * grid_size\<close> for
  \<open>(row, col)\<close> the second cell of the path. With the pursuer at cell \<open>(5, 5)\<close>, the
  target at cell \<open>(5, 7)\<close>, no obstacle and tile size 32 (on the 640 by 480 board of the
  handler's docstring) the answer is the pixel \<open>(192, 160)\<close>.
\<close>

theorem next_move_is_second_cell:
  "(build_grid state = Inr (grid, Some player, Some ai) \<and>
    find_path grid ai player = Inr (Some path) \<and> 1 < length path
      \<longrightarrow> get_ai_move state =
            Reply ''success'' (snd (path ! 1) * grid_size state) (fst (path ! 1) * grid_size state)) \<and>
   get_ai_move (request 640 480 32 [object_at ''ai_enemy'' 160 160, object_at ''player'' 224 160])
     = Reply ''success'' 192 160"
proof (intro conjI impI)
  assume "build_grid state = Inr (grid, Some player, Some ai) \<and>
    find_path grid ai player = Inr (Some path) \<and> 1 < length path"
  then show "get_ai_move state =
      Reply ''success'' (snd (path ! 1) * grid_size state) (fst (path ! 1) * grid_size state)"
    by (simp add: get_ai_move_present)
next
  show "get_ai_move (request 640 480 32 [object_at ''ai_enemy'' 160 160, object_at ''player'' 224 160])
     = Reply ''success'' 192 160"
    by (simp add: request_def object_at_def get_ai_move_def get_ai_move_with_def try_ai_move_def
        build_grid_def floordiv_def place_def find_path_def directions_def passable_def Let_def)
qed

text \<open>The scenario, through the general statement.\<close>

theorem next_move_is_second_cell_witness:
  "build_grid (request 640 480 32 [object_at ''ai_enemy'' 160 160, object_at ''player'' 224 160])
     = Inr (replicate 15 (replicate 20 0), Some (5, 7), Some (5, 5)) \<and>
   find_path (replicate 15 (replicate 20 0)) (5, 5) (5, 7) = Inr (Some [(5, 5), (5, 6), (5, 7)]) \<and>
   1 < length [(5, 5), (5, 6), (5, 7) :: cell] \<and>
   get_ai_move (request 640 480 32 [object_at ''ai_enemy'' 160 160, object_at ''player'' 224 160])
     = Reply ''success'' (6 * 32) (5 * 32)"
proof -
  let ?s = "request 640 480 32 [object_at ''ai_enemy'' 160 160, object_at ''player'' 224 160]"
  have b: "build_grid ?s = Inr (replicate 15 (replicate 20 0), Some (5, 7), Some (5, 5))"
    by (simp add: request_def object_at_def build_grid_def floordiv_def place_def)
  have f: "find_path (replicate 15 (replicate 20 0)) (5, 5) (5, 7)
             = Inr (Some [(5, 5), (5, 6), (5, 7)])"
    by (simp add: find_path_def directions_def passable_def Let_def)
  have g: "grid_size ?s = 32" by (simp add: request_def)
  from next_move_is_second_cell
    [of ?s "replicate 15 (replicate 20 0)" "(5, 7)" "(5, 5)" "[(5, 5), (5, 6), (5, 7)]"] b f
  have "get_ai_move ?s = Reply ''success'' (snd ([(5, 5), (5, 6), (5, 7)] ! 1) * grid_size ?s)
                                          (fst ([(5, 5), (5, 6), (5, 7)] ! 1) * grid_size ?s)"
    by simp
  with b f g show ?thesis by simp
qed

text \<open>
  Claim C6, as amended. On every rectangular grid, when \<open>end\<close> is not reachable from
  \<open>start\<close> the search returns \<^verbatim>\<open>None\<close>. The request is then answered with status
  \<^verbatim>\<open>no_move\<close>, which is not \<^verbatim>\<open>success\<close>, and with the pixel position of the
  pursuer's cell, \<open>(col * grid_size, row * grid_size)\<close>: the cell of the last object of type
  \<^verbatim>\<open>ai_enemy\<close>. That is the pursuer's own pixel position when both its coordinates are
  multiples of the tile size.
\<close>

theorem unreachable_target_holds:
  "(rectangular grid \<and> \<not> reachable grid start end \<longrightarrow> find_path grid start end = Inr None) \<and>
   (build_grid state = Inr (g, Some player, Some ai) \<and> \<not> reachable g ai player \<longrightarrow>
      find_path g ai player = Inr None \<and>
      get_ai_move state = Reply ''no_move'' (snd ai * grid_size state) (fst ai * grid_size state) \<and>
      status (get_ai_move state) \<noteq> ''success'' \<and>
      (\<exists>ob. last_of_type ''ai_enemy'' (objects state) = Some ob \<and>
            ai = cell_of (grid_size state) ob \<and>
            (grid_size state dvd obj_x ob \<and> grid_size state dvd obj_y ob \<longrightarrow>
               get_ai_move state = Reply ''no_move'' (obj_x ob) (obj_y ob))))"
proof (intro conjI impI)
  assume "rectangular grid \<and> \<not> reachable grid start end"
  then show "find_path grid start end = Inr None"
    using find_path_unreachable by blast
next
  assume a: "build_grid state = Inr (g, Some player, Some ai) \<and> \<not> reachable g ai player"
  then have b: "build_grid state = Inr (g, Some player, Some ai)" by simp
  then have "rectangular g" by (rule build_grid_rectangular)
  with a show f: "find_path g ai player = Inr None"
    using find_path_unreachable by blast
  with b show m: "get_ai_move state
      = Reply ''no_move'' (snd ai * grid_size state) (fst ai * grid_size state)"
    by (simp add: get_ai_move_present no_move_def)
  then show "status (get_ai_move state) \<noteq> ''success''"
    by simp
  from build_grid_positions(2) [OF b]
  obtain ob where ob: "last_of_type ''ai_enemy'' (objects state) = Some ob"
    and ai: "ai = cell_of (grid_size state) ob"
    by (cases "last_of_type ''ai_enemy'' (objects state)") auto
  have "get_ai_move state = Reply ''no_move'' (obj_x ob) (obj_y ob)"
    if "grid_size state dvd obj_x ob \<and> grid_size state dvd obj_y ob"
    using that m unfolding ai cell_of_def by simp
  with ob ai show "\<exists>ob. last_of_type ''ai_enemy'' (objects state) = Some ob \<and>
            ai = cell_of (grid_size state) ob \<and>
            (grid_size state dvd obj_x ob \<and> grid_size state dvd obj_y ob \<longrightarrow>
               get_ai_move state = Reply ''no_move'' (obj_x ob) (obj_y ob))"
    by blast
qed

text \<open>The row \<open>[0, 1, 0]\<close> with the pursuer left and the target right of the wall.\<close>

theorem unreachable_target_holds_witness:
  "rectangular blocked_row \<and> \<not> reachable blocked_row (0, 0) (0, 2) \<and>
   find_path blocked_row (0, 0) (0, 2) = Inr None \<and>
   build_grid (request 96 32 32
      [object_at ''wall'' 32 0, object_at ''ai_enemy'' 0 0, object_at ''player'' 64 0])
     = Inr (blocked_row, Some (0, 2), Some (0, 0)) \<and>
   get_ai_move (request 96 32 32
      [object_at ''wall'' 32 0, object_at ''ai_enemy'' 0 0, object_at ''player'' 64 0])
     = Reply ''no_move'' 0 0"
proof -
  let ?s = "request 96 32 32
      [object_at ''wall'' 32 0, object_at ''ai_enemy'' 0 0, object_at ''player'' 64 0]"
  have r: "rectangular blocked_row"
    by (simp add: rectangular_def blocked_row_def)
  have f: "find_path blocked_row (0, 0) (0, 2) = Inr None"
    by (simp add: find_path_def directions_def passable_def Let_def blocked_row_def)
  from r f have u: "\<not> reachable blocked_row (0, 0) (0, 2)"
    by (rule find_path_None_unreachable)
  have b: "build_grid ?s = Inr (blocked_row, Some (0, 2), Some (0, 0))"
    by (simp add: request_def object_at_def build_grid_def floordiv_def place_def set_cell_def
        py_index_def Let_def blocked_row_def numeral_3_eq_3)
  from unreachable_target_holds [of blocked_row "(0, 0)" "(0, 2)" ?s blocked_row "(0, 2)" "(0, 0)"]
    b u
  have "get_ai_move ?s = Reply ''no_move'' (snd ((0, 0) :: cell) * grid_size ?s)
                                        (fst ((0, 0) :: cell) * grid_size ?s)"
    by blast
  with r u f b show ?thesis by simp
qed

text \<open>
  Claim C6 as stated fails: a pursuer at pixel \<open>(8, 0)\<close> that has no path is answered
  \<^verbatim>\<open>no_move\<close> with the pixel \<open>(0, 0)\<close>, not with its own position.
\<close>

theorem hold_position_counterexample:
  "build_grid (request 96 32 32
      [object_at ''wall'' 32 0, object_at ''ai_enemy'' 8 0, object_at ''player'' 64 0])
     = Inr (blocked_row, Some (0, 2), Some (0, 0)) \<and>
   find_path blocked_row (0, 0) (0, 2) = Inr None \<and>
   last_of_type ''ai_enemy'' (objects (request 96 32 32
      [object_at ''wall'' 32 0, object_at ''ai_enemy'' 8 0, object_at ''player'' 64 0]))
     = Some (object_at ''ai_enemy'' 8 0) \<and>
   obj_x (object_at ''ai_enemy'' 8 0) = 8 \<and>
   get_ai_move (request 96 32 32
      [object_at ''wall'' 32 0, object_at ''ai_enemy'' 8 0, object_at ''player'' 64 0])
     = Reply ''no_move'' 0 0"
  by (simp add: request_def object_at_def get_ai_move_def get_ai_move_with_def try_ai_move_def
      build_grid_def floordiv_def place_def set_cell_def py_index_def find_path_def
      directions_def passable_def no_move_def Let_def blocked_row_def last_of_type_def
      numeral_3_eq_3)


lemma neighbours_directions:
  "neighbours (r, c) directions = [(r, c + 1), (r, c - 1), (r + 1, c), (r - 1, c)]"
  by (simp add: neighbours_def directions_def)

lemma explore_directions:
  assumes "rectangular grid"
  shows "explore grid e path (r, c) directions seen queue =
     Inr (let new = filter (\<lambda>n. open_cell grid n \<and> n \<notin> seen)
                      [(r, c + 1), (r, c - 1), (r + 1, c), (r - 1, c)]
          in if e \<in> set new then Found (path @ [e])
             else Continue (seen \<union> set new) (queue @ map (\<lambda>n. path @ [n]) new))"
  using explore_rect [OF assms distinct_directions, of e path "(r, c)" seen queue]
  by (simp only: neighbours_directions)

lemma diagonal_tie:
  assumes rect: "rectangular grid"
    and o1: "open_cell grid (r, c + 1)" and o2: "open_cell grid (r + 1, c + 1)"
  shows "find_path grid (r, c) (r + 1, c + 1) = Inr (Some [(r, c), (r, c + 1), (r + 1, c + 1)])"
proof -
  let ?s = "(r, c)" and ?e = "(r + 1, c + 1)"
  let ?rest = "filter (\<lambda>n. open_cell grid n \<and> n \<notin> {?s}) [(r, c - 1), (r + 1, c), (r - 1, c)]"
  let ?new1 = "(r, c + 1) # ?rest"
  let ?seen1 = "{?s} \<union> set ?new1"
  let ?queue1 = "map (\<lambda>n. [?s] @ [n]) ?rest"
  have new1: "filter (\<lambda>n. open_cell grid n \<and> n \<notin> {?s})
                [(r, c + 1), (r, c - 1), (r + 1, c), (r - 1, c)] = ?new1"
    using o1 by simp
  have e1: "?e \<notin> set ?new1" by auto
  have x1: "explore grid ?e [?s] ?s directions {?s} []
             = Inr (Continue ?seen1 ([?s, (r, c + 1)] # ?queue1))"
    unfolding explore_directions [OF rect] new1 Let_def using e1 by simp
  have e2: "?e \<notin> ?seen1" by auto
  let ?new2 = "filter (\<lambda>n. open_cell grid n \<and> n \<notin> ?seen1)
                 [(r, c + 1 + 1), (r, c + 1 - 1), (r + 1, c + 1), (r - 1, c + 1)]"
  have in2: "?e \<in> set ?new2"
    using o2 e2 by simp
  have x2: "explore grid ?e [?s, (r, c + 1)] (r, c + 1) directions ?seen1 ?queue1
             = Inr (Found ([?s, (r, c + 1)] @ [?e]))"
    unfolding explore_directions [OF rect] Let_def using in2 by (simp only: if_True)
  have "find_path grid ?s ?e = bfs grid ?e [[?s]] {?s}"
    by (simp add: find_path_def)
  also have "\<dots> = bfs grid ?e ([?s, (r, c + 1)] # ?queue1) ?seen1"
    using x1 by simp
  also have "\<dots> = Inr (Some ([?s, (r, c + 1)] @ [?e]))"
    using x2 by simp
  finally show ?thesis by simp
qed

text \<open>
  Claim C3, as amended. The neighbours of a dequeued cell \<open>(r, c)\<close> are explored in the
  fixed order \<open>+col\<close>, \<open>-col\<close>, \<open>+row\<close>, \<open>-row\<close>: on a rectangular grid the loop appends
  one path for each open unseen cell among \<open>(r, c + 1)\<close>, \<open>(r, c - 1)\<close>, \<open>(r + 1, c)\<close>,
  \<open>(r - 1, c)\<close>, in this order, or returns when \<open>end\<close> is among them. So a tie is broken
  towards \<open>+col\<close>: the path to the diagonal neighbour \<open>(r + 1, c + 1)\<close> goes through
  \<open>(r, c + 1)\<close> whenever that cell is open, also when \<open>(r + 1, c)\<close> is open too.
\<close>

theorem exploration_order:
  assumes "rectangular grid"
  shows "explore grid end path (r, c) directions seen queue =
           Inr (let new = filter (\<lambda>n. open_cell grid n \<and> n \<notin> seen)
                            [(r, c + 1), (r, c - 1), (r + 1, c), (r - 1, c)]
                in if end \<in> set new then Found (path @ [end])
                   else Continue (seen \<union> set new) (queue @ map (\<lambda>n. path @ [n]) new)) \<and>
         (open_cell grid (r, c + 1) \<and> open_cell grid (r + 1, c + 1) \<longrightarrow>
            find_path grid (r, c) (r + 1, c + 1)
              = Inr (Some [(r, c), (r, c + 1), (r + 1, c + 1)]))"
  using explore_directions [OF assms] diagonal_tie [OF assms] by blast

text \<open>The 2 by 2 open grid from its corner \<open>(0, 0)\<close>.\<close>

theorem exploration_order_witness:
  "rectangular open2 \<and> open_cell open2 (0, 1) \<and> open_cell open2 (1, 0) \<and> open_cell open2 (1, 1) \<and>
   explore open2 (1, 1) [(0, 0)] (0, 0) directions {(0, 0)} []
     = Inr (Continue {(0, 0), (0, 1), (1, 0)} [[(0, 0), (0, 1)], [(0, 0), (1, 0)]]) \<and>
   find_path open2 (0, 0) (1, 1) = Inr (Some [(0, 0), (0, 1), (1, 1)])"
proof -
  have r: "rectangular open2"
    by (simp add: rectangular_def open2_def)
  have o: "open_cell open2 (0, 1)" "open_cell open2 (1, 0)" "open_cell open2 (1, 1)"
    "\<not> open_cell open2 (0, - 1)" "\<not> open_cell open2 (- 1, 0)"
    by (simp_all add: open_cell_def in_bounds_def open2_def)
  from exploration_order [OF r, of "(1, 1)" "[(0, 0)]" 0 0 "{(0, 0)}" "[]"] o
  have "explore open2 (1, 1) [(0, 0)] (0, 0) directions {(0, 0)} []
          = Inr (Continue {(0, 0), (0, 1), (1, 0)} [[(0, 0), (0, 1)], [(0, 0), (1, 0)]])"
    and "find_path open2 (0, 0) (1, 1) = Inr (Some [(0, 0), (0, 1), (1, 1)])"
    by (auto simp: Let_def)
  with r o show ?thesis by simp
qed

text \<open>
  Claim C3 as stated fails: from \<open>(0, 0)\<close> on the 2 by 2 open grid the source enqueues
  the path to \<open>(0, 1)\<close> before the path to \<open>(1, 0)\<close>, where the order of the claim would
  enqueue them the other way round, and the path returned to \<open>(1, 1)\<close> goes through
  \<open>(0, 1)\<close>, not through \<open>(1, 0)\<close>.
\<close>

theorem exploration_order_counterexample:
  "explore open2 (1, 1) [(0, 0)] (0, 0) directions {(0, 0)} []
     = Inr (Continue {(1, 0), (0, 1), (0, 0)} [[(0, 0), (0, 1)], [(0, 0), (1, 0)]]) \<and>
   explore open2 (1, 1) [(0, 0)] (0, 0) spec_directions {(0, 0)} []
     = Inr (Continue {(0, 1), (1, 0), (0, 0)} [[(0, 0), (1, 0)], [(0, 0), (0, 1)]]) \<and>
   explore open2 (1, 1) [(0, 0)] (0, 0) directions {(0, 0)} []
     \<noteq> explore open2 (1, 1) [(0, 0)] (0, 0) spec_directions {(0, 0)} [] \<and>
   find_path open2 (0, 0) (1, 1) = Inr (Some [(0, 0), (0, 1), (1, 1)]) \<and>
   find_path open2 (0, 0) (1, 1) \<noteq> Inr (Some [(0, 0), (1, 0), (1, 1)])"
  by (simp add: find_path_def directions_def spec_directions_def passable_def Let_def open2_def)

end
